theory Spec2Isabelle
  imports Complex_Main
begin

section \<open>Free-text ticker resolver of \<open>finance_api.py\<close>\<close>

text \<open>
  The development embeds \<open>_normalize_company_text\<close>, \<open>_maybe_append_st\<close> and
  \<open>resolve_tickers_from_text\<close> of \<open>src/finance_api.py\<close>, together with the static
  tables \<open>_ALIAS_TO_TICKER\<close> and \<open>_STOCKHOLM_SUFFIX_CANDIDATES\<close>.

  A Python \<open>str\<close> is a sequence of code points. Here a text is a \<open>string\<close> whose
  characters are the code points below 256 (ASCII and Latin-1); this range holds every
  character named in the source: the letters, hyphen, period and ampersand, and the Nordic
  letters of \<open>_WORDS_RX\<close> (\<open>0xC5\<close>, \<open>0xC4\<close>, \<open>0xD6\<close>, \<open>0xE5\<close>, \<open>0xE4\<close>,
  \<open>0xF6\<close>). Texts with code points beyond 255 are outside the model.
\<close>

subsection \<open>Python string operations\<close>

definition code_point :: "char \<Rightarrow> nat" where
  "code_point c = of_char c"

text \<open>
  \<open>str.lower\<close> on Latin-1: \<open>A\<close>--\<open>Z\<close> and \<open>0xC0\<close>--\<open>0xDE\<close> (without the
  multiplication sign \<open>0xD7\<close>) move up by 32, every other character stays.
\<close>

definition lower_char :: "char \<Rightarrow> char" where
  "lower_char c =
     (let n = code_point c in
      if 65 \<le> n \<and> n \<le> 90 then char_of (n + 32)
      else if 192 \<le> n \<and> n \<le> 222 \<and> n \<noteq> 215 then char_of (n + 32)
      else c)"

definition lower :: "string \<Rightarrow> string" where
  "lower s = map lower_char s"

text \<open>
  \<open>str.upper\<close> on Latin-1: \<open>a\<close>--\<open>z\<close> and \<open>0xE0\<close>--\<open>0xFE\<close> (without the
  division sign \<open>0xF7\<close>) move down by 32, and the sharp s \<open>0xDF\<close> becomes the two
  letters \<open>SS\<close>. The upper-case forms of \<open>0xB5\<close> and \<open>0xFF\<close> lie beyond 255; the
  model leaves these two characters as they are.
\<close>

definition upper_char :: "char \<Rightarrow> string" where
  "upper_char c =
     (let n = code_point c in
      if 97 \<le> n \<and> n \<le> 122 then [char_of (n - 32)]
      else if n = 223 then ''SS''
      else if 224 \<le> n \<and> n \<le> 254 \<and> n \<noteq> 247 then [char_of (n - 32)]
      else [c])"

definition upper :: "string \<Rightarrow> string" where
  "upper s = concat (map upper_char s)"

text \<open>\<open>s.endswith(suffix)\<close>.\<close>

definition endswith :: "string \<Rightarrow> string \<Rightarrow> bool" where
  "endswith s suffix \<longleftrightarrow>
     length suffix \<le> length s \<and> drop (length s - length suffix) s = suffix"

subsection \<open>The Stockholm suffix\<close>

text \<open>
  \<^verbatim>\<open>
  _STOCKHOLM_SUFFIX_CANDIDATES = {"VOLV-A", "VOLV-B", "ERIC-A", "ERIC-B", "HM-B",
                                  "SAND", "ATCO-A", "ATCO-B", "EVO"}
  _ST_SUFFIX = ".ST"

  def _maybe_append_st(ticker: str) -> str:
      t = ticker.upper()
      if t in _STOCKHOLM_SUFFIX_CANDIDATES and not t.endswith(".ST"):
          return t + _ST_SUFFIX
      return t
  \<close>
  The candidates are only tested for membership, so they are kept as a list.
\<close>

definition STOCKHOLM_SUFFIX_CANDIDATES :: "string list" where
  "STOCKHOLM_SUFFIX_CANDIDATES =
     [''VOLV-A'', ''VOLV-B'', ''ERIC-A'', ''ERIC-B'', ''HM-B'', ''SAND'',
      ''ATCO-A'', ''ATCO-B'', ''EVO'']"

definition ST_SUFFIX :: string where
  "ST_SUFFIX = ''.ST''"

definition maybe_append_st :: "string \<Rightarrow> string" where
  "maybe_append_st ticker =
     (let t = upper ticker in
      if t \<in> set STOCKHOLM_SUFFIX_CANDIDATES \<and> \<not> endswith t ''.ST''
      then t @ ST_SUFFIX
      else t)"

subsection \<open>Tokens\<close>

text \<open>
  \<open>re.findall\<close> with a pattern \<open>[class]+\<close> scans the text from the left: at a
  character of the class it takes the longest run of class characters as the next match
  and goes on behind it, at any other character it moves one character on.
\<close>

function findall_class :: "(char \<Rightarrow> bool) \<Rightarrow> string \<Rightarrow> string list" where
  "findall_class P [] = []"
| "findall_class P (c # cs) =
     (if P c then (c # takeWhile P cs) # findall_class P (dropWhile P cs)
      else findall_class P cs)"
  by pat_completeness auto
termination
  by (relation "measure (\<lambda>(P, s). length s)")
     (auto simp add: length_dropWhile_le le_imp_less_Suc)

text \<open>
  \<^verbatim>\<open>
  _WORDS_RX = re.compile(r"[A-Za-z<C5><C4><D6><E5><E4><F6>\-\.]+")

  def _normalize_company_text(text: str) -> str:
      return " ".join(_WORDS_RX.findall((text or "").lower()))
  \<close>
  (the six Nordic letters are written here by their code points). The argument is typed
  \<open>str\<close>, for which \<open>text or ""\<close> is \<open>text\<close>.
\<close>

definition is_word_char :: "char \<Rightarrow> bool" where
  "is_word_char c =
     (let n = code_point c in
      (65 \<le> n \<and> n \<le> 90) \<or> (97 \<le> n \<and> n \<le> 122)
      \<or> n = 197 \<or> n = 196 \<or> n = 214 \<or> n = 229 \<or> n = 228 \<or> n = 246
      \<or> c = CHR ''-'' \<or> c = CHR ''.'')"

fun join_sp :: "string list \<Rightarrow> string" where
  "join_sp [] = []"
| "join_sp [w] = w"
| "join_sp (w # ws) = w @ '' '' @ join_sp ws"

definition normalize_company_text :: "string \<Rightarrow> string" where
  "normalize_company_text text = join_sp (findall_class is_word_char (lower text))"

text \<open>
  \<open>str.split()\<close> without arguments cuts at runs of whitespace and returns no empty
  token. The whitespace code points below 256 are \<open>0x09\<close>--\<open>0x0D\<close>,
  \<open>0x1C\<close>--\<open>0x20\<close>, \<open>0x85\<close> and \<open>0xA0\<close>.
\<close>

definition is_space :: "char \<Rightarrow> bool" where
  "is_space c =
     (let n = code_point c in
      (9 \<le> n \<and> n \<le> 13) \<or> (28 \<le> n \<and> n \<le> 32) \<or> n = 133 \<or> n = 160)"

definition split_ws :: "string \<Rightarrow> string list" where
  "split_ws s = findall_class (\<lambda>c. \<not> is_space c) s"

subsection \<open>The ticker shape\<close>

text \<open>
  \<^verbatim>\<open>re.fullmatch(r"[A-Z]{1,5}(\-[A-Z])?(\.[A-Z]{2,4})?", up)\<close>

  The letters of the first group are followed by a hyphen, a period or the end of the
  string, none of which is a letter; so the group can only match the whole leading run of
  letters, which therefore has 1 to 5 letters. Where a hyphen and a letter follow, the
  share-class group takes them (without it the hyphen would have to be a period or the
  end). What is left is empty or a period with 2 to 4 letters.
\<close>

definition is_ascii_letter :: "char \<Rightarrow> bool" where
  "is_ascii_letter c \<longleftrightarrow>
     (65 \<le> code_point c \<and> code_point c \<le> 90) \<or> (97 \<le> code_point c \<and> code_point c \<le> 122)"

definition is_AZ :: "char \<Rightarrow> bool" where
  "is_AZ c \<longleftrightarrow> 65 \<le> code_point c \<and> code_point c \<le> 90"

fun strip_share_class :: "string \<Rightarrow> string" where
  "strip_share_class (c1 # c2 # r) =
     (if c1 = CHR ''-'' \<and> is_AZ c2 then r else c1 # c2 # r)"
| "strip_share_class r = r"

fun market_suffix_or_end :: "string \<Rightarrow> bool" where
  "market_suffix_or_end [] = True"
| "market_suffix_or_end (c # m) =
     (c = CHR ''.'' \<and> 2 \<le> length m \<and> length m \<le> 4 \<and> list_all is_AZ m)"

definition ticker_fullmatch :: "string \<Rightarrow> bool" where
  "ticker_fullmatch up =
     (let letters = takeWhile is_AZ up in
      1 \<le> length letters \<and> length letters \<le> 5 \<and>
      market_suffix_or_end (strip_share_class (dropWhile is_AZ up)))"

subsection \<open>The alias table\<close>

text \<open>
  \<open>_ALIAS_TO_TICKER\<close>, a dict literal with 25 distinct keys, in the order of the source
  (which is the order of \<open>list(_ALIAS_TO_TICKER.keys())\<close>).
\<close>

definition ALIAS_TO_TICKER :: "(string \<times> string) list" where
  "ALIAS_TO_TICKER =
     [(''tesla'', ''TSLA''),
      (''apple'', ''AAPL''),
      (''microsoft'', ''MSFT''),
      (''nvidia'', ''NVDA''),
      (''google'', ''GOOGL''),
      (''alphabet'', ''GOOGL''),
      (''amazon'', ''AMZN''),
      (''meta'', ''META''),
      (''facebook'', ''META''),
      (''netflix'', ''NFLX''),
      (''oracle'', ''ORCL''),
      (''adobe'', ''ADBE''),
      (''volvo'', ''VOLV-B.ST''),
      (''volvob'', ''VOLV-B.ST''),
      (''ericsson'', ''ERIC-B.ST''),
      (''ericson'', ''ERIC-B.ST''),
      (''eric-b'', ''ERIC-B.ST''),
      (''astra'', ''AZN''),
      (''astrazeneca'', ''AZN''),
      (''h&m'', ''HM-B.ST''),
      (''hm'', ''HM-B.ST''),
      (''sandvik'', ''SAND.ST''),
      (''atlas copco'', ''ATCO-B.ST''),
      (''atlas'', ''ATCO-B.ST''),
      (''evolution'', ''EVO.ST'')]"

definition alias_keys :: "string list" where
  "alias_keys = map fst ALIAS_TO_TICKER"

definition alias_lookup :: "string \<Rightarrow> string option" where
  "alias_lookup k = map_of ALIAS_TO_TICKER k"

subsection \<open>What the interpreter and the library supply\<close>

text \<open>
  Two things the function uses are not code of the repository.

  \<^item> \<open>fuzz.WRatio\<close> of the third-party library rapidfuzz, a floating-point similarity
    score between 0 and 100. It is a parameter of the model.
  \<^item> The order in which a Python \<open>set\<close> of strings is iterated. It follows the hash
    values of the strings, which CPython seeds anew for each process, and not the order of
    insertion. The model keeps \<open>found\<close> as the list of its distinct elements in the order
    they were first added, and takes as a parameter the function that turns this list into
    the order of iteration.
\<close>

record runtime =
  WRatio :: "string \<Rightarrow> string \<Rightarrow> real"
  set_iter :: "string list \<Rightarrow> string list"

text \<open>
  A set iterates each of its elements once: on a list without duplicates, the order of
  iteration is a rearrangement of it.
\<close>

definition set_iter_ok :: "runtime \<Rightarrow> bool" where
  "set_iter_ok rt \<longleftrightarrow>
     (\<forall>xs. distinct xs \<longrightarrow> distinct (set_iter rt xs) \<and> set (set_iter rt xs) = set xs)"

text \<open>\<open>found.add(x)\<close>.\<close>

definition set_add :: "string \<Rightarrow> string list \<Rightarrow> string list" where
  "set_add x found = (if x \<in> set found then found else found @ [x])"

text \<open>
  Modelled from the spec: \<open>process.extract\<close> of rapidfuzz, which is not under \<open>src/\<close>.
  Section 4.3: score the query against every choice, retain the top \<open>limit\<close> choices
  whose score is at least the cut-off, best first, equal scores in the order of the
  choices. A match is the triple of the choice, its score and its index. A limit of zero
  or less retains nothing.
\<close>

definition process_extract ::
  "(string \<Rightarrow> string \<Rightarrow> real) \<Rightarrow> string \<Rightarrow> string list \<Rightarrow> int \<Rightarrow> real
     \<Rightarrow> (string \<times> real \<times> nat) list" where
  "process_extract scorer query choices limit score_cutoff =
     (let scored = map (\<lambda>(i, c). (c, scorer query c, i)) (enumerate 0 choices);
          kept = filter (\<lambda>(c, s, i). score_cutoff \<le> s) scored;
          ranked = sort_key (\<lambda>(c, s, i). - s) kept
      in take (nat limit) ranked)"

text \<open>\<open>list(dict.fromkeys(xs))\<close>: the elements of \<open>xs\<close>, each at its first position.\<close>

definition dict_fromkeys :: "string list \<Rightarrow> string list" where
  "dict_fromkeys xs = foldl (\<lambda>keys x. if x \<in> set keys then keys else keys @ [x]) [] xs"

text \<open>
  \<open>xs[:limit]\<close>: the first \<open>limit\<close> elements, and for a negative \<open>limit\<close> all but the
  last \<open>-limit\<close>.
\<close>

definition slice_to :: "int \<Rightarrow> 'a list \<Rightarrow> 'a list" where
  "slice_to limit xs =
     (if 0 \<le> limit then take (nat limit) xs else take (length xs - nat (- limit)) xs)"

subsection \<open>The resolver\<close>

datatype error = KeyError string

text \<open>
  \<^verbatim>\<open>
  def resolve_tickers_from_text(text: str, limit: int = 3) -> list[str]:
      t = _normalize_company_text(text)

      found = set()
      for token in t.split():
          up = token.upper()
          if re.fullmatch(r"[A-Z]{1,5}(\-[A-Z])?(\.[A-Z]{2,4})?", up):
              found.add(_maybe_append_st(up))

      choices = list(_ALIAS_TO_TICKER.keys())
      matches = process.extract(
          t, choices, scorer=fuzz.WRatio, limit=limit, score_cutoff=80
      )
      for match_name, score, _ in matches:
          found.add(_ALIAS_TO_TICKER[match_name])

      for w in t.split():
          if w in _ALIAS_TO_TICKER:
              found.add(_ALIAS_TO_TICKER[w])

      normalized = [_maybe_append_st(x) for x in found]
      return list(dict.fromkeys(normalized))[:limit]
  \<close>
  Each loop is a recursion over its sequence that passes \<open>found\<close> along. The subscript
  \<open>_ALIAS_TO_TICKER[match_name]\<close> of the second loop raises \<open>KeyError\<close> for a name that
  is not a key; the third loop tests the key first.
\<close>

fun add_ticker_tokens :: "string list \<Rightarrow> string list \<Rightarrow> string list" where
  "add_ticker_tokens [] found = found"
| "add_ticker_tokens (token # rest) found =
     (let up = upper token in
      add_ticker_tokens rest
        (if ticker_fullmatch up then set_add (maybe_append_st up) found else found))"

fun add_fuzzy_matches ::
  "(string \<times> real \<times> nat) list \<Rightarrow> string list \<Rightarrow> error + string list" where
  "add_fuzzy_matches [] found = Inr found"
| "add_fuzzy_matches ((match_name, score, i) # rest) found =
     (case alias_lookup match_name of
        None \<Rightarrow> Inl (KeyError match_name)
      | Some ticker \<Rightarrow> add_fuzzy_matches rest (set_add ticker found))"

fun add_exact_aliases :: "string list \<Rightarrow> string list \<Rightarrow> string list" where
  "add_exact_aliases [] found = found"
| "add_exact_aliases (w # rest) found =
     (case alias_lookup w of
        None \<Rightarrow> add_exact_aliases rest found
      | Some ticker \<Rightarrow> add_exact_aliases rest (set_add ticker found))"

text \<open>
  \<open>found_after_steps\<close> is the set \<open>found\<close> when the third loop has ended, in the order
  of discovery; \<open>resolve_tickers_from_text\<close> goes on from there.
\<close>

definition found_after_steps :: "runtime \<Rightarrow> string \<Rightarrow> int \<Rightarrow> error + string list" where
  "found_after_steps rt text limit =
     (let t = normalize_company_text text;
          found1 = add_ticker_tokens (split_ws t) [];
          choices = alias_keys;
          matches = process_extract (WRatio rt) t choices limit 80
      in case add_fuzzy_matches matches found1 of
           Inl e \<Rightarrow> Inl e
         | Inr found2 \<Rightarrow> Inr (add_exact_aliases (split_ws t) found2))"

definition resolve_tickers_from_text :: "runtime \<Rightarrow> string \<Rightarrow> int \<Rightarrow> error + string list" where
  "resolve_tickers_from_text rt text limit =
     (case found_after_steps rt text limit of
        Inl e \<Rightarrow> Inl e
      | Inr found \<Rightarrow>
          (let normalized = map maybe_append_st (set_iter rt found)
           in Inr (slice_to limit (dict_fromkeys normalized))))"

subsection \<open>Sample runtimes\<close>

text \<open>
  To run the model, a scorer and two orders of iteration. The scorer is a stand-in with
  the values \<open>WRatio\<close> gives to a choice that is found inside the query as it is: 100 for
  the query itself, 90 inside a query of at most eight times its length, 60 inside a
  longer one; every other choice scores 0 here. Nothing is proved from it but the closed
  examples that name it.
\<close>

definition occurs_in :: "string \<Rightarrow> string \<Rightarrow> bool" where
  "occurs_in c q \<longleftrightarrow> list_ex (\<lambda>i. take (length c) (drop i q) = c) [0..<Suc (length q)]"

definition containment_score :: "string \<Rightarrow> string \<Rightarrow> real" where
  "containment_score q c =
     (if c = [] \<or> q = [] then 0
      else if q = c then 100
      else if occurs_in c q then (if 8 * length c < length q then 60 else 90)
      else 0)"

definition rt_insertion_order :: runtime where
  "rt_insertion_order = \<lparr>WRatio = containment_score, set_iter = (\<lambda>xs. xs)\<rparr>"

definition rt_reverse_order :: runtime where
  "rt_reverse_order = \<lparr>WRatio = containment_score, set_iter = rev\<rparr>"

text \<open>
  The texts of the examples: \<open>"pris p<E5> tesla idag"\<close>, with the letter \<open>0xE5\<close>,
  is the text that \<open>get_freeform_stock_report\<close> proposes to the user.
\<close>

definition text_pris_tesla :: string where
  "text_pris_tesla = ''pris p'' @ [CHR 0xE5] @ '' tesla idag''"

definition text_hm_ericsson :: string where
  "text_hm_ericsson = ''vad kostar H&M och Ericsson''"

section \<open>Properties\<close>

subsection \<open>Case conversion\<close>

lemma code_point_char_of: "n < 256 \<Longrightarrow> code_point (char_of n) = n"
  by (simp add: code_point_def)

lemma upper_append: "upper (a @ b) = upper a @ upper b"
  by (simp add: upper_def)

lemma upper_char_fixed:
  assumes "\<not> (97 \<le> code_point c \<and> code_point c \<le> 122)"
    and "code_point c \<noteq> 223"
    and "\<not> (224 \<le> code_point c \<and> code_point c \<le> 254 \<and> code_point c \<noteq> 247)"
  shows "upper_char c = [c]"
  using assms by (auto simp add: upper_char_def Let_def)

lemma upper_upper_char: "upper (upper_char c) = upper_char c"
proof -
  let ?n = "code_point c"
  consider (az) "97 \<le> ?n \<and> ?n \<le> 122"
    | (ss) "?n = 223"
    | (latin) "224 \<le> ?n \<and> ?n \<le> 254 \<and> ?n \<noteq> 247"
    | (other) "\<not> (97 \<le> ?n \<and> ?n \<le> 122)" "?n \<noteq> 223"
        "\<not> (224 \<le> ?n \<and> ?n \<le> 254 \<and> ?n \<noteq> 247)"
    by blast
  then show ?thesis
  proof cases
    case az
    then have u: "upper_char c = [char_of (?n - 32)]"
      by (simp add: upper_char_def Let_def)
    have "code_point (char_of (?n - 32)) = ?n - 32"
      using az by (intro code_point_char_of) linarith
    then have "upper_char (char_of (?n - 32)) = [char_of (?n - 32)]"
      using az by (intro upper_char_fixed) auto
    then show ?thesis by (simp add: u upper_def)
  next
    case ss
    then have u: "upper_char c = ''SS''"
      by (simp add: upper_char_def Let_def)
    have "upper_char (CHR ''S'') = ''S''"
      by (simp add: upper_char_def Let_def code_point_def)
    then show ?thesis by (simp add: u upper_def)
  next
    case latin
    then have u: "upper_char c = [char_of (?n - 32)]"
      by (simp add: upper_char_def Let_def)
    have "code_point (char_of (?n - 32)) = ?n - 32"
      using latin by (intro code_point_char_of) linarith
    then have "upper_char (char_of (?n - 32)) = [char_of (?n - 32)]"
      using latin by (intro upper_char_fixed) auto
    then show ?thesis by (simp add: u upper_def)
  next
    case other
    then have "upper_char c = [c]" by (rule upper_char_fixed)
    then show ?thesis by (simp add: upper_def)
  qed
qed

lemma upper_idem: "upper (upper s) = upper s"
proof (induction s)
  case Nil
  show ?case by (simp add: upper_def)
next
  case (Cons c s)
  have "upper (c # s) = upper_char c @ upper s" by (simp add: upper_def)
  then show ?case using Cons upper_upper_char by (simp add: upper_append)
qed

lemma endswith_append: "endswith (a @ b) b"
  by (simp add: endswith_def)

lemma upper_ST: "upper ''.ST'' = ''.ST''"
  by (simp add: upper_def upper_char_def Let_def code_point_def)

subsection \<open>The suffix normalizer\<close>

lemma maybe_append_st_twice: "maybe_append_st (maybe_append_st t) = maybe_append_st t"
proof (cases "upper t \<in> set STOCKHOLM_SUFFIX_CANDIDATES \<and> \<not> endswith (upper t) ''.ST''")
  case True
  then have m: "maybe_append_st t = upper t @ ''.ST''"
    by (simp add: maybe_append_st_def ST_SUFFIX_def)
  have "upper (upper t @ ''.ST'') = upper t @ ''.ST''"
    by (simp only: upper_append upper_idem upper_ST)
  moreover have "endswith (upper t @ ''.ST'') ''.ST''"
    by (rule endswith_append)
  ultimately have "maybe_append_st (upper t @ ''.ST'') = upper t @ ''.ST''"
    by (simp add: maybe_append_st_def)
  then show ?thesis by (simp only: m)
next
  case False
  then have m: "maybe_append_st t = upper t"
    by (auto simp add: maybe_append_st_def)
  have "maybe_append_st (upper t) = upper t"
    using False by (auto simp add: maybe_append_st_def upper_idem)
  then show ?thesis by (simp only: m)
qed

text \<open>
  C7. For every ticker string \<open>t\<close>, applying \<open>_maybe_append_st\<close> twice gives the same
  string as applying it once.
\<close>

theorem maybe_append_st_idempotent:
  "maybe_append_st (maybe_append_st t) = maybe_append_st t"
  by (rule maybe_append_st_twice)

subsection \<open>The set \<open>found\<close> and the matches\<close>

lemma set_set_add: "set (set_add x found) = insert x (set found)"
  by (auto simp add: set_add_def)

lemma distinct_set_add: "distinct found \<Longrightarrow> distinct (set_add x found)"
  by (simp add: set_add_def)

lemma alias_values_listed:
  "list_all (\<lambda>(k, v). maybe_append_st v = v) ALIAS_TO_TICKER"
  by code_simp

lemma alias_lookup_fixed:
  assumes "alias_lookup k = Some v"
  shows "maybe_append_st v = v"
proof -
  from assms have "(k, v) \<in> set ALIAS_TO_TICKER"
    unfolding alias_lookup_def by (rule map_of_SomeD)
  with alias_values_listed show ?thesis
    by (auto simp add: list_all_iff)
qed

lemma alias_lookup_key:
  assumes "a \<in> set alias_keys"
  shows "\<exists>v. alias_lookup a = Some v"
proof -
  from assms have "a \<in> fst ` set ALIAS_TO_TICKER" by (simp add: alias_keys_def)
  then have "map_of ALIAS_TO_TICKER a \<noteq> None" by (simp add: map_of_eq_None_iff)
  then show ?thesis by (auto simp add: alias_lookup_def)
qed

text \<open>The invariant of \<open>found\<close>: no duplicates, and every element already normalized.\<close>

lemma set_add_inv:
  assumes "distinct found \<and> (\<forall>x\<in>set found. maybe_append_st x = x)"
    and "maybe_append_st y = y"
  shows "distinct (set_add y found) \<and> (\<forall>x\<in>set (set_add y found). maybe_append_st x = x)"
proof (cases "y \<in> set found")
  case True
  then have e: "set_add y found = found" by (simp add: set_add_def)
  show ?thesis unfolding e by (fact assms(1))
next
  case False
  then have e: "set_add y found = found @ [y]" by (simp add: set_add_def)
  have "distinct (found @ [y])" using False assms(1) by simp
  moreover have "\<forall>x\<in>set (found @ [y]). maybe_append_st x = x"
    using assms by auto
  ultimately show ?thesis by (simp only: e)
qed

lemma add_ticker_tokens_inv:
  assumes "distinct found \<and> (\<forall>x\<in>set found. maybe_append_st x = x)"
  shows "distinct (add_ticker_tokens tokens found) \<and>
         (\<forall>x\<in>set (add_ticker_tokens tokens found). maybe_append_st x = x)"
  using assms
proof (induction tokens arbitrary: found)
  case Nil
  show ?case unfolding add_ticker_tokens.simps by (fact Nil.prems)
next
  case (Cons token rest)
  show ?case
  proof (cases "ticker_fullmatch (upper token)")
    case True
    then have e: "add_ticker_tokens (token # rest) found =
        add_ticker_tokens rest (set_add (maybe_append_st (upper token)) found)"
      by (simp add: Let_def)
    show ?thesis unfolding e
      by (rule Cons.IH, rule set_add_inv [OF Cons.prems maybe_append_st_twice])
  next
    case False
    then have e: "add_ticker_tokens (token # rest) found = add_ticker_tokens rest found"
      by (simp add: Let_def)
    show ?thesis unfolding e by (rule Cons.IH [OF Cons.prems])
  qed
qed

lemma add_fuzzy_matches_inv:
  assumes "add_fuzzy_matches ms found = Inr found'"
    and "distinct found \<and> (\<forall>x\<in>set found. maybe_append_st x = x)"
  shows "distinct found' \<and> (\<forall>x\<in>set found'. maybe_append_st x = x)"
  using assms
proof (induction ms found rule: add_fuzzy_matches.induct)
  case (1 found)
  from "1.prems"(1) have e: "found' = found" by simp
  show ?case unfolding e by (fact "1.prems"(2))
next
  case (2 match_name score i rest found)
  from "2.prems"(1) obtain ticker where t: "alias_lookup match_name = Some ticker"
    and r: "add_fuzzy_matches rest (set_add ticker found) = Inr found'"
    by (auto split: option.splits)
  show ?case
    by (rule "2.IH" [OF t r], rule set_add_inv [OF "2.prems"(2) alias_lookup_fixed [OF t]])
qed

lemma add_exact_aliases_inv:
  assumes "distinct found \<and> (\<forall>x\<in>set found. maybe_append_st x = x)"
  shows "distinct (add_exact_aliases ws found) \<and>
         (\<forall>x\<in>set (add_exact_aliases ws found). maybe_append_st x = x)"
  using assms
proof (induction ws arbitrary: found)
  case Nil
  show ?case unfolding add_exact_aliases.simps by (fact Nil.prems)
next
  case (Cons w rest)
  show ?case
  proof (cases "alias_lookup w")
    case None
    then have e: "add_exact_aliases (w # rest) found = add_exact_aliases rest found"
      by simp
    show ?thesis unfolding e by (rule Cons.IH [OF Cons.prems])
  next
    case (Some ticker)
    then have e: "add_exact_aliases (w # rest) found =
        add_exact_aliases rest (set_add ticker found)"
      by simp
    show ?thesis unfolding e
      by (rule Cons.IH, rule set_add_inv [OF Cons.prems alias_lookup_fixed [OF Some]])
  qed
qed

text \<open>What \<open>process.extract\<close> returns.\<close>

lemma process_extract_match:
  assumes "(a, s, i) \<in> set (process_extract scorer q choices limit cutoff)"
  shows "a \<in> set choices \<and> s = scorer q a \<and> cutoff \<le> s"
proof -
  let ?scored = "map (\<lambda>(i, c). (c, scorer q c, i)) (enumerate 0 choices)"
  let ?kept = "filter (\<lambda>(c, s, i). cutoff \<le> s) ?scored"
  from assms have "(a, s, i) \<in> set (sort_key (\<lambda>(c, s, i). - s) ?kept)"
    unfolding process_extract_def Let_def by (rule in_set_takeD)
  then have k: "(a, s, i) \<in> set ?kept" by simp
  then have "cutoff \<le> s" by simp
  moreover from k have "(a, s, i) \<in> set ?scored" by simp
  then obtain j c where "(j, c) \<in> set (enumerate 0 choices)" and "(a, s, i) = (c, scorer q c, j)"
    by auto
  then have "a \<in> set choices" and "s = scorer q a"
    by (auto simp add: in_set_enumerate_eq)
  ultimately show ?thesis by simp
qed

lemma process_extract_length:
  "length (process_extract scorer q choices limit cutoff) \<le> nat limit"
  by (simp add: process_extract_def Let_def)

lemma add_fuzzy_matches_total:
  assumes "\<forall>m\<in>set ms. fst m \<in> set alias_keys"
  shows "\<exists>found'. add_fuzzy_matches ms found = Inr found'"
  using assms
proof (induction ms found rule: add_fuzzy_matches.induct)
  case (1 found)
  show ?case by simp
next
  case (2 match_name score i rest found)
  then have "match_name \<in> set alias_keys" by simp
  then obtain ticker where t: "alias_lookup match_name = Some ticker"
    using alias_lookup_key by blast
  from "2.prems" have "\<forall>m\<in>set rest. fst m \<in> set alias_keys" by simp
  from "2.IH" [OF t this] show ?case using t by simp
qed

lemma found_after_steps_total: "\<exists>found. found_after_steps rt text limit = Inr found"
proof -
  let ?t = "normalize_company_text text"
  let ?ms = "process_extract (WRatio rt) ?t alias_keys limit 80"
  have "\<forall>m\<in>set ?ms. fst m \<in> set alias_keys"
    using process_extract_match by (metis prod.collapse)
  then obtain found2 where "add_fuzzy_matches ?ms (add_ticker_tokens (split_ws ?t) []) = Inr found2"
    using add_fuzzy_matches_total by blast
  then show ?thesis by (simp add: found_after_steps_def Let_def)
qed

lemma found_after_steps_inv:
  assumes "found_after_steps rt text limit = Inr found"
  shows "distinct found \<and> (\<forall>x\<in>set found. maybe_append_st x = x)"
proof -
  let ?t = "normalize_company_text text"
  let ?f1 = "add_ticker_tokens (split_ws ?t) []"
  let ?ms = "process_extract (WRatio rt) ?t alias_keys limit 80"
  from assms obtain found2 where f2: "add_fuzzy_matches ?ms ?f1 = Inr found2"
    and f: "found = add_exact_aliases (split_ws ?t) found2"
    by (auto simp add: found_after_steps_def Let_def split: sum.splits)
  have "distinct ?f1 \<and> (\<forall>x\<in>set ?f1. maybe_append_st x = x)"
    by (rule add_ticker_tokens_inv) simp
  then have "distinct found2 \<and> (\<forall>x\<in>set found2. maybe_append_st x = x)"
    by (rule add_fuzzy_matches_inv [OF f2])
  then show ?thesis unfolding f by (rule add_exact_aliases_inv)
qed

text \<open>The last two lines of the function.\<close>

lemma fromkeys_foldl_set:
  "set (foldl (\<lambda>keys x. if x \<in> set keys then keys else keys @ [x]) acc xs) = set acc \<union> set xs"
  by (induction xs arbitrary: acc) auto

lemma fromkeys_foldl_distinct:
  "distinct (acc @ xs) \<Longrightarrow>
   foldl (\<lambda>keys x. if x \<in> set keys then keys else keys @ [x]) acc xs = acc @ xs"
  by (induction xs arbitrary: acc) auto

lemma set_dict_fromkeys: "set (dict_fromkeys xs) = set xs"
  by (simp add: dict_fromkeys_def fromkeys_foldl_set)

lemma dict_fromkeys_distinct: "distinct xs \<Longrightarrow> dict_fromkeys xs = xs"
  using fromkeys_foldl_distinct [of "[]" xs] by (simp add: dict_fromkeys_def)

lemma set_slice_to: "set (slice_to limit xs) \<subseteq> set xs"
  by (auto simp add: slice_to_def dest: in_set_takeD)

lemma resolve_by_iteration:
  assumes "set_iter_ok rt" and "found_after_steps rt text limit = Inr found"
  shows "resolve_tickers_from_text rt text limit = Inr (slice_to limit (set_iter rt found))"
proof -
  from found_after_steps_inv [OF assms(2)]
  have d: "distinct found" and n: "\<forall>x\<in>set found. maybe_append_st x = x" by blast+
  from assms(1) d have di: "distinct (set_iter rt found)" and si: "set (set_iter rt found) = set found"
    by (simp_all add: set_iter_ok_def)
  from n si have "map maybe_append_st (set_iter rt found) = set_iter rt found"
    by (intro map_idI) blast
  then show ?thesis
    using assms(2) di by (simp add: resolve_tickers_from_text_def dict_fromkeys_distinct)
qed

subsection \<open>The sample runtimes\<close>

lemma set_iter_ok_insertion: "set_iter_ok rt_insertion_order"
  by (simp add: set_iter_ok_def rt_insertion_order_def)

lemma set_iter_ok_reverse: "set_iter_ok rt_reverse_order"
  by (simp add: set_iter_ok_def rt_reverse_order_def)

lemma same_scorer: "WRatio rt_insertion_order = WRatio rt_reverse_order"
  by (simp add: rt_insertion_order_def rt_reverse_order_def)

lemma found_four_tickers:
  "found_after_steps rt_reverse_order ''AAPL MSFT NVDA TSLA'' 3 =
     Inr [''AAPL'', ''MSFT'', ''NVDA'', ''TSLA'']"
  by code_simp

lemma resolve_four_tickers_reverse:
  "resolve_tickers_from_text rt_reverse_order ''AAPL MSFT NVDA TSLA'' 3 =
     Inr [''TSLA'', ''NVDA'', ''MSFT'']"
  by code_simp

lemma resolve_four_tickers_insertion:
  "resolve_tickers_from_text rt_insertion_order ''AAPL MSFT NVDA TSLA'' 3 =
     Inr [''AAPL'', ''MSFT'', ''NVDA'']"
  by code_simp

lemma found_four_tickers_limit4:
  "found_after_steps rt_insertion_order ''AAPL MSFT NVDA TSLA'' 4 =
     Inr [''AAPL'', ''MSFT'', ''NVDA'', ''TSLA'']"
  by code_simp

lemma resolve_eric_b:
  "resolve_tickers_from_text rt_insertion_order ''ERIC-B'' 3 = Inr [''ERIC-B.ST'']"
  by code_simp

lemma found_garbage: "found_after_steps rt_insertion_order ''???'' 3 = Inr []"
  by code_simp

subsection \<open>The result\<close>

lemma resolve_unfold:
  assumes "found_after_steps rt text limit = Inr found"
  shows "resolve_tickers_from_text rt text limit =
         Inr (slice_to limit (dict_fromkeys (map maybe_append_st (set_iter rt found))))"
  using assms by (simp add: resolve_tickers_from_text_def)

lemma resolve_total: "\<exists>r. resolve_tickers_from_text rt text limit = Inr r"
proof -
  obtain found where "found_after_steps rt text limit = Inr found"
    using found_after_steps_total by blast
  then show ?thesis by (simp add: resolve_unfold)
qed

lemma resolve_elements:
  assumes "resolve_tickers_from_text rt text limit = Inr r" and "x \<in> set r"
  shows "\<exists>y. x = maybe_append_st y"
proof -
  obtain found where f: "found_after_steps rt text limit = Inr found"
    using found_after_steps_total by blast
  have r: "r = slice_to limit (dict_fromkeys (map maybe_append_st (set_iter rt found)))"
    using assms(1) unfolding resolve_unfold [OF f] by simp
  have "set r \<subseteq> set (dict_fromkeys (map maybe_append_st (set_iter rt found)))"
    unfolding r by (rule set_slice_to)
  then have "x \<in> set (dict_fromkeys (map maybe_append_st (set_iter rt found)))"
    using assms(2) by (rule subsetD)
  then have "x \<in> maybe_append_st ` set (set_iter rt found)"
    by (simp only: set_dict_fromkeys set_map)
  then show ?thesis by blast
qed

lemma stockholm_suffixed:
  "list_all (\<lambda>t. \<not> endswith t ''.ST'' \<and> t @ ''.ST'' \<notin> set STOCKHOLM_SUFFIX_CANDIDATES)
     STOCKHOLM_SUFFIX_CANDIDATES"
  by code_simp

lemma maybe_append_st_not_bare: "maybe_append_st y \<notin> set STOCKHOLM_SUFFIX_CANDIDATES"
proof (cases "upper y \<in> set STOCKHOLM_SUFFIX_CANDIDATES")
  case True
  with stockholm_suffixed
  have "\<not> endswith (upper y) ''.ST''"
    and "upper y @ ''.ST'' \<notin> set STOCKHOLM_SUFFIX_CANDIDATES"
    by (auto simp add: list_all_iff)
  with True show ?thesis
    by (simp add: maybe_append_st_def ST_SUFFIX_def)
next
  case False
  then show ?thesis by (simp add: maybe_append_st_def)
qed

lemma set_iter_length:
  assumes "set_iter_ok rt" and "distinct found"
  shows "length (set_iter rt found) = length found"
proof -
  from assms have "distinct (set_iter rt found)" and "set (set_iter rt found) = set found"
    by (simp_all add: set_iter_ok_def)
  then show ?thesis using assms(2) by (metis distinct_card)
qed

lemma process_extract_none:
  assumes "\<forall>a\<in>set choices. scorer q a < cutoff"
  shows "process_extract scorer q choices limit cutoff = []"
proof -
  let ?scored = "map (\<lambda>(i, c). (c, scorer q c, i)) (enumerate 0 choices)"
  have "filter (\<lambda>(c, s, i). cutoff \<le> s) ?scored = []"
  proof -
    have "\<not> cutoff \<le> scorer q (choices ! j)" if "j < length choices" for j
      using assms nth_mem [OF that] by (simp add: not_le)
    then show ?thesis
      by (auto simp add: filter_empty_conv in_set_enumerate_eq)
  qed
  then show ?thesis by (simp add: process_extract_def)
qed

lemma normalize_garbage:
  "normalize_company_text '''' = []" "normalize_company_text ''???'' = []"
  "normalize_company_text ''12345'' = []"
  by code_simp+

lemma split_ws_empty: "split_ws [] = []"
  by (simp add: split_ws_def)

lemma found_nothing:
  assumes "normalize_company_text text = []"
    and "\<forall>a\<in>set alias_keys. WRatio rt [] a < 80"
  shows "found_after_steps rt text limit = Inr []"
proof -
  have "process_extract (WRatio rt) [] alias_keys limit 80 = []"
    using assms(2) by (rule process_extract_none)
  then show ?thesis
    using assms(1) by (simp add: found_after_steps_def split_ws_empty)
qed

subsection \<open>What the three steps add\<close>

lemma set_add_append: "\<exists>ys. set_add x found = found @ ys"
  by (simp add: set_add_def)

lemma add_ticker_tokens_set:
  "set (add_ticker_tokens tokens found) =
     set found \<union> {maybe_append_st (upper t) | t. t \<in> set tokens \<and> ticker_fullmatch (upper t)}"
proof (induction tokens arbitrary: found)
  case Nil
  show ?case by simp
next
  case (Cons token rest)
  show ?case
  proof (cases "ticker_fullmatch (upper token)")
    case True
    then have "add_ticker_tokens (token # rest) found =
        add_ticker_tokens rest (set_add (maybe_append_st (upper token)) found)"
      by (simp add: Let_def)
    then show ?thesis using True by (auto simp add: Cons.IH set_set_add)
  next
    case False
    then have "add_ticker_tokens (token # rest) found = add_ticker_tokens rest found"
      by (simp add: Let_def)
    then show ?thesis using False by (auto simp add: Cons.IH)
  qed
qed

lemma add_ticker_tokens_append: "\<exists>ys. add_ticker_tokens tokens found = found @ ys"
proof (induction tokens arbitrary: found)
  case Nil
  show ?case by simp
next
  case (Cons token rest)
  let ?f = "if ticker_fullmatch (upper token)
            then set_add (maybe_append_st (upper token)) found else found"
  obtain ys where "?f = found @ ys" using set_add_append by (cases "ticker_fullmatch (upper token)") auto
  moreover obtain zs where "add_ticker_tokens rest ?f = ?f @ zs" using Cons.IH by blast
  ultimately have "add_ticker_tokens rest ?f = found @ ys @ zs" by simp
  then show ?case by (simp add: Let_def)
qed

lemma add_fuzzy_matches_set:
  assumes "add_fuzzy_matches ms found = Inr found'"
  shows "set found' = set found \<union> {v. \<exists>m\<in>set ms. alias_lookup (fst m) = Some v}"
  using assms
proof (induction ms found rule: add_fuzzy_matches.induct)
  case (1 found)
  then show ?case by simp
next
  case (2 match_name score i rest found)
  from "2.prems" obtain ticker where t: "alias_lookup match_name = Some ticker"
    and r: "add_fuzzy_matches rest (set_add ticker found) = Inr found'"
    by (auto split: option.splits)
  from "2.IH" [OF t r] show ?case using t by (auto simp add: set_set_add)
qed

lemma add_fuzzy_matches_append:
  assumes "add_fuzzy_matches ms found = Inr found'"
  shows "\<exists>ys. found' = found @ ys"
  using assms
proof (induction ms found rule: add_fuzzy_matches.induct)
  case (1 found)
  then show ?case by simp
next
  case (2 match_name score i rest found)
  from "2.prems" obtain ticker where t: "alias_lookup match_name = Some ticker"
    and r: "add_fuzzy_matches rest (set_add ticker found) = Inr found'"
    by (auto split: option.splits)
  from "2.IH" [OF t r] obtain ys where "found' = set_add ticker found @ ys" by blast
  moreover obtain zs where "set_add ticker found = found @ zs" using set_add_append by blast
  ultimately have "found' = found @ zs @ ys" by simp
  then show ?case by blast
qed

lemma add_exact_aliases_set:
  "set (add_exact_aliases ws found) =
     set found \<union> {v. \<exists>w\<in>set ws. alias_lookup w = Some v}"
proof (induction ws arbitrary: found)
  case Nil
  show ?case by simp
next
  case (Cons w rest)
  show ?case
  proof (cases "alias_lookup w")
    case None
    then show ?thesis by (auto simp add: Cons.IH)
  next
    case (Some ticker)
    then show ?thesis by (auto simp add: Cons.IH set_set_add)
  qed
qed

lemma add_exact_aliases_append: "\<exists>ys. add_exact_aliases ws found = found @ ys"
proof (induction ws arbitrary: found)
  case Nil
  show ?case by simp
next
  case (Cons w rest)
  show ?case
  proof (cases "alias_lookup w")
    case None
    then show ?thesis using Cons.IH by simp
  next
    case (Some ticker)
    obtain ys where "set_add ticker found = found @ ys" using set_add_append by blast
    moreover obtain zs where
      "add_exact_aliases rest (set_add ticker found) = set_add ticker found @ zs"
      using Cons.IH by blast
    ultimately have "add_exact_aliases rest (set_add ticker found) = found @ ys @ zs" by simp
    then show ?thesis using Some by simp
  qed
qed

text \<open>
  The set \<open>found\<close> after the three steps: the normalized ticker-shaped tokens first, in
  their order, then what the fuzzy matches and the exact aliases add.
\<close>

lemma found_after_steps_parts:
  assumes "found_after_steps rt text limit = Inr found"
  shows "set found =
      {maybe_append_st (upper t) | t.
         t \<in> set (split_ws (normalize_company_text text)) \<and> ticker_fullmatch (upper t)}
      \<union> {v. \<exists>m\<in>set (process_extract (WRatio rt) (normalize_company_text text)
                        alias_keys limit 80). alias_lookup (fst m) = Some v}
      \<union> {v. \<exists>w\<in>set (split_ws (normalize_company_text text)). alias_lookup w = Some v}"
    and "\<exists>ys. found = add_ticker_tokens (split_ws (normalize_company_text text)) [] @ ys"
proof -
  let ?t = "normalize_company_text text"
  let ?f1 = "add_ticker_tokens (split_ws ?t) []"
  let ?ms = "process_extract (WRatio rt) ?t alias_keys limit 80"
  from assms obtain found2 where f2: "add_fuzzy_matches ?ms ?f1 = Inr found2"
    and f: "found = add_exact_aliases (split_ws ?t) found2"
    by (auto simp add: found_after_steps_def Let_def split: sum.splits)
  have s1: "set ?f1 = {maybe_append_st (upper t) | t.
         t \<in> set (split_ws ?t) \<and> ticker_fullmatch (upper t)}"
    by (simp add: add_ticker_tokens_set)
  have s2: "set found2 = set ?f1 \<union> {v. \<exists>m\<in>set ?ms. alias_lookup (fst m) = Some v}"
    using f2 by (rule add_fuzzy_matches_set)
  have s3: "set found = set found2 \<union> {v. \<exists>w\<in>set (split_ws ?t). alias_lookup w = Some v}"
    unfolding f by (rule add_exact_aliases_set)
  show "set found =
      {maybe_append_st (upper t) | t. t \<in> set (split_ws ?t) \<and> ticker_fullmatch (upper t)}
      \<union> {v. \<exists>m\<in>set ?ms. alias_lookup (fst m) = Some v}
      \<union> {v. \<exists>w\<in>set (split_ws ?t). alias_lookup w = Some v}"
    unfolding s3 s2 s1 by (rule refl)
  obtain ys where "found2 = ?f1 @ ys" using add_fuzzy_matches_append [OF f2] by blast
  moreover obtain zs where "found = found2 @ zs" unfolding f using add_exact_aliases_append by blast
  ultimately have "found = ?f1 @ ys @ zs" by simp
  then show "\<exists>ys. found = ?f1 @ ys" by blast
qed

subsection \<open>Runs of a character class\<close>

lemma takeWhile_stop: "rest = [] \<or> \<not> P (hd rest) \<Longrightarrow> takeWhile P rest = []"
  by (cases rest) auto

lemma dropWhile_stop: "rest = [] \<or> \<not> P (hd rest) \<Longrightarrow> dropWhile P rest = rest"
  by (cases rest) auto

lemma findall_class_run:
  assumes "w \<noteq> []" and "\<forall>c\<in>set w. P c" and "rest = [] \<or> \<not> P (hd rest)"
  shows "findall_class P (w @ rest) = w # findall_class P rest"
proof -
  from assms(1) obtain c w' where w: "w = c # w'" by (cases w) auto
  with assms(2) have c: "P c" and w': "\<forall>x\<in>set w'. P x" by simp_all
  have t: "takeWhile P (w' @ rest) = w'"
    using w' takeWhile_stop [of rest P] assms(3) by (simp add: takeWhile_append2)
  have d: "dropWhile P (w' @ rest) = rest"
    using w' dropWhile_stop [of rest P] assms(3) by (simp add: dropWhile_append2)
  show ?thesis using c by (simp add: w t d)
qed

lemma findall_class_skip: "\<not> P c \<Longrightarrow> findall_class P (c # cs) = findall_class P cs"
  by simp

lemma findall_class_words:
  "w \<in> set (findall_class P s) \<Longrightarrow> w \<noteq> [] \<and> (\<forall>c\<in>set w. P c)"
proof (induction P s rule: findall_class.induct)
  case (1 P)
  then show ?case by simp
next
  case (2 P c cs)
  show ?case
  proof (cases "P c")
    case True
    with "2.prems" consider "w = c # takeWhile P cs" | "w \<in> set (findall_class P (dropWhile P cs))"
      by auto
    then show ?thesis
    proof cases
      case 1
      then show ?thesis using True by (auto dest: set_takeWhileD)
    next
      case 2
      then show ?thesis using "2.IH"(1) [OF True] by blast
    qed
  next
    case False
    with "2.prems" have "w \<in> set (findall_class P cs)" by simp
    then show ?thesis using "2.IH"(2) [OF False] by blast
  qed
qed

text \<open>
  A match is a run of class characters that is bounded on both sides by the ends of the
  text or by a character outside the class.
\<close>

lemma findall_class_bounded:
  "w \<in> set (findall_class P s) \<Longrightarrow>
   \<exists>pre post. s = pre @ w @ post \<and> (pre = [] \<or> \<not> P (last pre)) \<and> (post = [] \<or> \<not> P (hd post))"
proof (induction P s rule: findall_class.induct)
  case (1 P)
  then show ?case by simp
next
  case (2 P c cs)
  show ?case
  proof (cases "P c")
    case True
    with "2.prems" consider (first) "w = c # takeWhile P cs"
      | (later) "w \<in> set (findall_class P (dropWhile P cs))"
      by auto
    then show ?thesis
    proof cases
      case first
      have "c # cs = [] @ w @ dropWhile P cs" by (simp add: first)
      moreover have "dropWhile P cs = [] \<or> \<not> P (hd (dropWhile P cs))"
        using hd_dropWhile [of P cs] by blast
      ultimately show ?thesis by blast
    next
      case later
      from "2.IH"(1) [OF True later] obtain pre post
        where d: "dropWhile P cs = pre @ w @ post"
          and l: "pre = [] \<or> \<not> P (last pre)" and r: "post = [] \<or> \<not> P (hd post)"
        by blast
      from findall_class_words [OF later] have wne: "w \<noteq> []" and wP: "\<forall>x\<in>set w. P x"
        by simp_all
      have "pre \<noteq> []"
      proof
        assume "pre = []"
        with d wne have "dropWhile P cs \<noteq> []" and "hd (dropWhile P cs) = hd w" by simp_all
        then have "\<not> P (hd w)" using hd_dropWhile [of P cs] by simp
        then show False using wne wP by simp
      qed
      with l have l': "\<not> P (last (c # takeWhile P cs @ pre))" by simp
      have "c # cs = (c # takeWhile P cs @ pre) @ w @ post"
        using d takeWhile_dropWhile_id [of P cs] by (metis append_Cons append_assoc)
      with l' r show ?thesis by blast
    qed
  next
    case False
    with "2.prems" have "w \<in> set (findall_class P cs)" by simp
    from "2.IH"(2) [OF False this] obtain pre post
      where d: "cs = pre @ w @ post"
        and l: "pre = [] \<or> \<not> P (last pre)" and r: "post = [] \<or> \<not> P (hd post)"
      by blast
    have "\<not> P (last (c # pre))" using l False by auto
    moreover have "c # cs = (c # pre) @ w @ post" by (simp add: d)
    ultimately show ?thesis using r by blast
  qed
qed

lemma last_dropWhile:
  assumes "dropWhile P cs \<noteq> []"
  shows "last (dropWhile P cs) = last cs"
proof -
  have "cs = takeWhile P cs @ dropWhile P cs" by simp
  then have "last cs = last (takeWhile P cs @ dropWhile P cs)" by simp
  also have "\<dots> = last (dropWhile P cs)" using assms by (rule last_appendR)
  finally show ?thesis by simp
qed

lemma findall_class_member:
  assumes "w \<noteq> []" and "\<forall>c\<in>set w. P c" and "post = [] \<or> \<not> P (hd post)"
  shows "pre = [] \<or> \<not> P (last pre) \<Longrightarrow> w \<in> set (findall_class P (pre @ w @ post))"
proof (induction pre rule: length_induct)
  case (1 pre)
  show ?case
  proof (cases pre)
    case Nil
    have "findall_class P (w @ post) = w # findall_class P post"
      using assms by (rule findall_class_run)
    then show ?thesis by (simp add: Nil)
  next
    case (Cons c cs)
    show ?thesis
    proof (cases "P c")
      case False
      have b: "cs = [] \<or> \<not> P (last cs)" using "1.prems" Cons by auto
      have "length cs < length pre" by (simp add: Cons)
      with "1.IH" b have "w \<in> set (findall_class P (cs @ w @ post))" by blast
      then show ?thesis using False by (simp add: Cons)
    next
      case True
      with "1.prems" Cons have ne: "cs \<noteq> []" and nl: "\<not> P (last cs)"
        by (auto split: if_splits)
      from ne nl have x: "last cs \<in> set cs" by simp
      then have dn: "dropWhile P cs \<noteq> []" using nl by (auto simp add: dropWhile_eq_Nil_conv)
      have d: "dropWhile P (cs @ w @ post) = dropWhile P cs @ w @ post"
        using x nl by (rule dropWhile_append1)
      have "length (dropWhile P cs) < length pre"
        using length_dropWhile_le [of P cs] by (simp add: Cons)
      moreover have "dropWhile P cs = [] \<or> \<not> P (last (dropWhile P cs))"
        using nl last_dropWhile [OF dn] by simp
      ultimately have "w \<in> set (findall_class P (dropWhile P cs @ w @ post))"
        using "1.IH" by blast
      then show ?thesis using True by (simp add: Cons d)
    qed
  qed
qed

text \<open>Joining the matches with single spaces and splitting again gives the matches back.\<close>

lemma findall_class_join:
  assumes "\<forall>w\<in>set ws. w \<noteq> [] \<and> (\<forall>c\<in>set w. P c)" and "\<not> P (CHR '' '')"
  shows "findall_class P (join_sp ws) = ws"
  using assms(1)
proof (induction ws rule: join_sp.induct)
  case 1
  show ?case by simp
next
  case (2 w)
  then have "w \<noteq> []" and "\<forall>c\<in>set w. P c" by simp_all
  then have "findall_class P (w @ []) = w # findall_class P []"
    by (rule findall_class_run) simp
  then show ?case by simp
next
  case (3 w v ws)
  then have "w \<noteq> []" and "\<forall>c\<in>set w. P c" by simp_all
  then have "findall_class P (w @ CHR '' '' # join_sp (v # ws)) =
      w # findall_class P (CHR '' '' # join_sp (v # ws))"
    using assms(2) by (intro findall_class_run) simp_all
  moreover have "findall_class P (join_sp (v # ws)) = v # ws"
    using "3.IH" "3.prems" by simp
  ultimately show ?case using assms(2) by simp
qed

lemma word_char_not_space: "is_word_char c \<Longrightarrow> \<not> is_space c"
  by (auto simp add: is_word_char_def is_space_def Let_def code_point_def)

lemma space_is_space: "is_space (CHR '' '')"
  by (simp add: is_space_def Let_def code_point_def)

lemma split_normalized:
  "split_ws (normalize_company_text text) = findall_class is_word_char (lower text)"
proof -
  have "\<forall>w\<in>set (findall_class is_word_char (lower text)).
      w \<noteq> [] \<and> (\<forall>c\<in>set w. \<not> is_space c)"
    using findall_class_words [of _ is_word_char "lower text"] word_char_not_space by blast
  then show ?thesis
    unfolding split_ws_def normalize_company_text_def
    by (rule findall_class_join) (simp add: space_is_space)
qed

section \<open>The claims\<close>

subsection \<open>Limit and order\<close>

text \<open>
  C1, first part and what holds in place of the second. When \<open>found\<close> holds more
  than \<open>limit\<close> candidates and \<open>limit\<close> is positive, the function returns exactly
  \<open>limit\<close> tickers, all different and all candidates. They are the first \<open>limit\<close>
  elements in the order in which the set is iterated.
\<close>

theorem resolve_limit_enforced:
  assumes "set_iter_ok rt"
    and "found_after_steps rt text limit = Inr found"
    and "0 < limit" and "limit < int (length found)"
  shows "\<exists>r. resolve_tickers_from_text rt text limit = Inr r \<and> length r = nat limit
           \<and> distinct r \<and> set r \<subseteq> set found \<and> r = take (nat limit) (set_iter rt found)"
proof -
  from found_after_steps_inv [OF assms(2)] have d: "distinct found" by blast
  from assms(1) d have di: "distinct (set_iter rt found)"
    and si: "set (set_iter rt found) = set found"
    by (simp_all add: set_iter_ok_def)
  have len: "length (set_iter rt found) = length found"
    using assms(1) d by (rule set_iter_length)
  let ?r = "take (nat limit) (set_iter rt found)"
  have "resolve_tickers_from_text rt text limit = Inr ?r"
    using resolve_by_iteration [OF assms(1,2)] assms(3) by (simp add: slice_to_def)
  moreover have "length ?r = nat limit" using len assms(3,4) by simp
  moreover have "distinct ?r" using di by simp
  moreover have "set ?r \<subseteq> set found" using si set_take_subset by fastforce
  ultimately show ?thesis by blast
qed

theorem resolve_limit_enforced_witness:
  "set_iter_ok rt_reverse_order
   \<and> found_after_steps rt_reverse_order ''AAPL MSFT NVDA TSLA'' 3 =
       Inr [''AAPL'', ''MSFT'', ''NVDA'', ''TSLA'']
   \<and> (0::int) < 3 \<and> (3::int) < int (length [''AAPL'', ''MSFT'', ''NVDA'', ''TSLA''])
   \<and> (\<exists>r. resolve_tickers_from_text rt_reverse_order ''AAPL MSFT NVDA TSLA'' 3 = Inr r
         \<and> length r = nat 3 \<and> distinct r
         \<and> set r \<subseteq> set [''AAPL'', ''MSFT'', ''NVDA'', ''TSLA'']
         \<and> r = take (nat 3) (set_iter rt_reverse_order [''AAPL'', ''MSFT'', ''NVDA'', ''TSLA'']))"
proof -
  have a: "(0::int) < 3" and b: "(3::int) < int (length [''AAPL'', ''MSFT'', ''NVDA'', ''TSLA''])"
    by simp_all
  from resolve_limit_enforced [OF set_iter_ok_reverse found_four_tickers a b]
  show ?thesis using set_iter_ok_reverse found_four_tickers a b by blast
qed

text \<open>
  The claim as stated fails: with the set iterated in the reverse of the order of
  insertion, the three tickers returned for a text with four are not the three that were
  discovered first, nor in the order of discovery.
\<close>

theorem resolve_order_counterexample:
  "found_after_steps rt_reverse_order ''AAPL MSFT NVDA TSLA'' 3 =
     Inr [''AAPL'', ''MSFT'', ''NVDA'', ''TSLA'']
   \<and> resolve_tickers_from_text rt_reverse_order ''AAPL MSFT NVDA TSLA'' 3 =
     Inr [''TSLA'', ''NVDA'', ''MSFT'']
   \<and> [''TSLA'', ''NVDA'', ''MSFT''] \<noteq> take 3 [''AAPL'', ''MSFT'', ''NVDA'', ''TSLA'']"
  using found_four_tickers resolve_four_tickers_reverse by simp

subsection \<open>No exception\<close>

text \<open>
  C6. For every text and every limit the function returns a list; no path raises. When
  the three steps leave \<open>found\<close> empty, the list is empty. That is so for the texts
  \<open>""\<close>, \<open>"???"\<close> and \<open>"12345"\<close>, whose normalized text is empty, provided the
  scorer gives the empty query less than the cut-off against every alias.
\<close>

theorem resolve_never_raises:
  "(\<exists>r. resolve_tickers_from_text rt text limit = Inr r)
   \<and> (set_iter_ok rt \<longrightarrow> found_after_steps rt text limit = Inr []
        \<longrightarrow> resolve_tickers_from_text rt text limit = Inr [])
   \<and> (set_iter_ok rt \<longrightarrow> (\<forall>a\<in>set alias_keys. WRatio rt [] a < 80)
        \<longrightarrow> text \<in> {'''', ''???'', ''12345''}
        \<longrightarrow> resolve_tickers_from_text rt text limit = Inr [])"
proof -
  have empty: "resolve_tickers_from_text rt text limit = Inr []"
    if ok: "set_iter_ok rt" and f: "found_after_steps rt text limit = Inr []"
  proof -
    from ok have "set (set_iter rt []) = {}" by (simp add: set_iter_ok_def)
    then have "set_iter rt [] = []" by simp
    then show ?thesis using resolve_by_iteration [OF ok f] by (simp add: slice_to_def)
  qed
  have "found_after_steps rt text limit = Inr []"
    if "\<forall>a\<in>set alias_keys. WRatio rt [] a < 80" and "text \<in> {'''', ''???'', ''12345''}"
  proof -
    from that(2) have "normalize_company_text text = []"
      using normalize_garbage by blast
    then show ?thesis using that(1) by (rule found_nothing)
  qed
  with empty resolve_total show ?thesis by blast
qed

theorem resolve_never_raises_witness:
  "set_iter_ok rt_insertion_order
   \<and> found_after_steps rt_insertion_order ''???'' 3 = Inr []
   \<and> resolve_tickers_from_text rt_insertion_order ''???'' 3 = Inr []"
  using resolve_never_raises [of rt_insertion_order "''???''" 3]
    set_iter_ok_insertion found_garbage by blast

subsection \<open>Determinism\<close>

text \<open>
  C8, as far as it holds. With the scorer and the order of iteration fixed, the result is
  a function of the text and the limit. Under two orders of iteration the two results
  have the same length and are drawn from the same candidates; when the candidates are
  at most \<open>limit\<close>, both hold all of them.
\<close>

theorem resolve_up_to_iteration_order:
  assumes "set_iter_ok rt1" and "set_iter_ok rt2" and "WRatio rt1 = WRatio rt2"
    and "found_after_steps rt1 text limit = Inr found"
  shows "\<exists>r1 r2. resolve_tickers_from_text rt1 text limit = Inr r1
           \<and> resolve_tickers_from_text rt2 text limit = Inr r2
           \<and> length r1 = length r2 \<and> set r1 \<subseteq> set found \<and> set r2 \<subseteq> set found
           \<and> (int (length found) \<le> limit \<longrightarrow> set r1 = set found \<and> set r2 = set found)
           \<and> (set_iter rt1 = set_iter rt2 \<longrightarrow> r1 = r2)"
proof -
  have f2: "found_after_steps rt2 text limit = Inr found"
    using assms(3,4) by (simp add: found_after_steps_def)
  from found_after_steps_inv [OF assms(4)] have d: "distinct found" by blast
  let ?i1 = "set_iter rt1 found" and ?i2 = "set_iter rt2 found"
  have s1: "set ?i1 = set found" and s2: "set ?i2 = set found"
    using assms(1,2) d by (simp_all add: set_iter_ok_def)
  have l1: "length ?i1 = length found" and l2: "length ?i2 = length found"
    using assms(1,2) d by (simp_all add: set_iter_length)
  have r1: "resolve_tickers_from_text rt1 text limit = Inr (slice_to limit ?i1)"
    using assms(1,4) by (rule resolve_by_iteration)
  have r2: "resolve_tickers_from_text rt2 text limit = Inr (slice_to limit ?i2)"
    using assms(2) f2 by (rule resolve_by_iteration)
  have "length (slice_to limit ?i1) = length (slice_to limit ?i2)"
    by (simp add: slice_to_def l1 l2)
  moreover have "set (slice_to limit ?i1) \<subseteq> set found"
    using set_slice_to [of limit ?i1] s1 by simp
  moreover have "set (slice_to limit ?i2) \<subseteq> set found"
    using set_slice_to [of limit ?i2] s2 by simp
  moreover have "set (slice_to limit ?i1) = set found \<and> set (slice_to limit ?i2) = set found"
    if "int (length found) \<le> limit"
    using that s1 s2 l1 l2 by (simp add: slice_to_def)
  moreover have "slice_to limit ?i1 = slice_to limit ?i2" if "set_iter rt1 = set_iter rt2"
    using that by simp
  ultimately show ?thesis using r1 r2 by blast
qed

theorem resolve_up_to_iteration_order_witness:
  "set_iter_ok rt_insertion_order \<and> set_iter_ok rt_reverse_order
   \<and> WRatio rt_insertion_order = WRatio rt_reverse_order
   \<and> found_after_steps rt_insertion_order ''AAPL MSFT NVDA TSLA'' 4 =
       Inr [''AAPL'', ''MSFT'', ''NVDA'', ''TSLA'']
   \<and> (\<exists>r1 r2. resolve_tickers_from_text rt_insertion_order ''AAPL MSFT NVDA TSLA'' 4 = Inr r1
         \<and> resolve_tickers_from_text rt_reverse_order ''AAPL MSFT NVDA TSLA'' 4 = Inr r2
         \<and> length r1 = length r2
         \<and> set r1 = set [''AAPL'', ''MSFT'', ''NVDA'', ''TSLA'']
         \<and> set r2 = set [''AAPL'', ''MSFT'', ''NVDA'', ''TSLA''])"
proof -
  have "int (length [''AAPL'', ''MSFT'', ''NVDA'', ''TSLA'']) \<le> 4" by simp
  with resolve_up_to_iteration_order
    [OF set_iter_ok_insertion set_iter_ok_reverse same_scorer found_four_tickers_limit4]
  show ?thesis
    using set_iter_ok_insertion set_iter_ok_reverse same_scorer found_four_tickers_limit4
    by blast
qed

text \<open>
  The claim as stated fails: the same text and limit, against the same alias table and
  scorer, give two different lists under two orders of iteration.
\<close>

theorem resolve_determinism_counterexample:
  "resolve_tickers_from_text rt_insertion_order ''AAPL MSFT NVDA TSLA'' 3 \<noteq>
   resolve_tickers_from_text rt_reverse_order ''AAPL MSFT NVDA TSLA'' 3"
  by (simp add: resolve_four_tickers_insertion resolve_four_tickers_reverse)

subsection \<open>No bare Stockholm symbol\<close>

text \<open>
  C9. No element of the returned list is one of the nine symbols of
  \<open>_STOCKHOLM_SUFFIX_CANDIDATES\<close>: every element is a value of \<open>_maybe_append_st\<close>,
  which gives such a symbol the suffix \<open>.ST\<close>.
\<close>

theorem resolve_no_bare_stockholm:
  assumes "resolve_tickers_from_text rt text limit = Inr r" and "x \<in> set r"
  shows "x \<notin> set STOCKHOLM_SUFFIX_CANDIDATES"
proof -
  from resolve_elements [OF assms] obtain y where "x = maybe_append_st y" by blast
  then show ?thesis by (simp only: maybe_append_st_not_bare not_False_eq_True)
qed

theorem resolve_no_bare_stockholm_witness:
  "resolve_tickers_from_text rt_insertion_order ''ERIC-B'' 3 = Inr [''ERIC-B.ST'']
   \<and> ''ERIC-B.ST'' \<in> set [''ERIC-B.ST'']
   \<and> ''ERIC-B.ST'' \<notin> set STOCKHOLM_SUFFIX_CANDIDATES"
proof -
  have m: "''ERIC-B.ST'' \<in> set [''ERIC-B.ST'']" by simp
  from resolve_no_bare_stockholm [OF resolve_eric_b m]
  show ?thesis using resolve_eric_b m by blast
qed

subsection \<open>Limit zero\<close>

text \<open>
  C10. The limit is not validated: with \<open>limit = 0\<close> the function returns the empty list
  for every text, and raises nothing.
\<close>

theorem resolve_limit_zero: "resolve_tickers_from_text rt text 0 = Inr []"
proof -
  obtain found where "found_after_steps rt text 0 = Inr found"
    using found_after_steps_total by blast
  then show ?thesis by (simp add: resolve_unfold slice_to_def)
qed

theorem resolve_limit_zero_witness:
  "resolve_tickers_from_text rt_insertion_order ''AAPL MSFT NVDA TSLA'' 0 = Inr []"
  by (rule resolve_limit_zero)

subsection \<open>The examples\<close>

lemma singleton_list:
  assumes "distinct xs" and "set xs = {x}"
  shows "xs = [x]"
proof -
  from assms have "length xs = 1" by (metis distinct_card card_1_singleton_iff is_singletonI is_singleton_altdef)
  then obtain y where "xs = [y]" by (cases xs) auto
  with assms(2) show ?thesis by simp
qed

lemma tesla_tokens:
  "split_ws (normalize_company_text text_pris_tesla) =
     [''pris'', ''p'' @ [CHR 0xE5], ''tesla'', ''idag'']"
  "add_ticker_tokens (split_ws (normalize_company_text text_pris_tesla)) [] =
     [''PRIS'', ''TESLA'', ''IDAG'']"
  "alias_lookup ''tesla'' = Some ''TSLA''"
  by code_simp+

lemma hm_tokens:
  "normalize_company_text text_hm_ericsson = ''vad kostar h m och ericsson''"
  "split_ws (normalize_company_text text_hm_ericsson) =
     [''vad'', ''kostar'', ''h'', ''m'', ''och'', ''ericsson'']"
  "add_ticker_tokens (split_ws (normalize_company_text text_hm_ericsson)) [] =
     [''VAD'', ''H'', ''M'', ''OCH'']"
  by code_simp+

lemma hm_aliases_listed:
  "list_all (\<lambda>(k, v). v = ''HM-B.ST'' \<longrightarrow> k = ''h&m'' \<or> k = ''hm'') ALIAS_TO_TICKER"
  by code_simp

lemma hm_aliases:
  assumes "alias_lookup a = Some ''HM-B.ST''"
  shows "a = ''h&m'' \<or> a = ''hm''"
proof -
  from assms have "(a, ''HM-B.ST'') \<in> set ALIAS_TO_TICKER"
    unfolding alias_lookup_def by (rule map_of_SomeD)
  with hm_aliases_listed show ?thesis
    by (auto simp add: list_all_iff)
qed

lemma eric_b_tokens:
  "normalize_company_text ''ERIC-B'' = ''eric-b''"
  "split_ws (normalize_company_text ''ERIC-B'') = [''eric-b'']"
  "add_ticker_tokens (split_ws (normalize_company_text ''ERIC-B'')) [] = [''ERIC-B.ST'']"
  "alias_lookup ''eric-b'' = Some ''ERIC-B.ST''"
  by code_simp+

lemma resolve_pris_tesla_insertion:
  "resolve_tickers_from_text rt_insertion_order text_pris_tesla 3 =
     Inr [''PRIS'', ''TESLA'', ''IDAG'']"
  by code_simp

lemma resolve_hm_ericsson_insertion:
  "resolve_tickers_from_text rt_insertion_order text_hm_ericsson 3 = Inr [''VAD'', ''H'', ''M'']"
  by code_simp

lemma hm_scores:
  "containment_score ''vad kostar h m och ericsson'' ''h&m'' < 80"
  "containment_score ''vad kostar h m och ericsson'' ''hm'' < 80"
  by code_simp+

lemma eric_b_scores:
  "list_all (\<lambda>a. 80 \<le> containment_score ''eric-b'' a \<longrightarrow> alias_lookup a = Some ''ERIC-B.ST'')
     alias_keys"
  by code_simp

text \<open>
  C2. The text \<open>"pris p<E5> tesla idag"\<close> has the candidate \<open>TSLA\<close>, but behind the three
  words \<open>PRIS\<close>, \<open>TESLA\<close> and \<open>IDAG\<close>, which have the shape of a ticker. Whatever the
  scorer, when the set is iterated in the order of insertion the three words fill the
  limit of 3 and \<open>TSLA\<close> is not returned.
\<close>

theorem resolve_pris_tesla_drops_TSLA:
  assumes "set_iter rt = (\<lambda>xs. xs)"
  shows "\<exists>found. found_after_steps rt text_pris_tesla 3 = Inr found \<and> ''TSLA'' \<in> set found
           \<and> resolve_tickers_from_text rt text_pris_tesla 3 = Inr [''PRIS'', ''TESLA'', ''IDAG'']
           \<and> ''TSLA'' \<notin> set [''PRIS'', ''TESLA'', ''IDAG'']"
proof -
  obtain found where f: "found_after_steps rt text_pris_tesla 3 = Inr found"
    using found_after_steps_total by blast
  have ok: "set_iter_ok rt" using assms by (simp add: set_iter_ok_def)
  have "''tesla'' \<in> set (split_ws (normalize_company_text text_pris_tesla))"
    by (simp add: tesla_tokens(1))
  then have "''TSLA'' \<in> {v. \<exists>w\<in>set (split_ws (normalize_company_text text_pris_tesla)).
      alias_lookup w = Some v}"
    using tesla_tokens(3) by blast
  then have m: "''TSLA'' \<in> set found"
    unfolding found_after_steps_parts(1) [OF f] by (rule UnI2)
  from found_after_steps_parts(2) [OF f] obtain ys
    where "found = [''PRIS'', ''TESLA'', ''IDAG''] @ ys"
    unfolding tesla_tokens(2) by blast
  then have "slice_to 3 (set_iter rt found) = [''PRIS'', ''TESLA'', ''IDAG'']"
    using assms by (simp add: slice_to_def)
  then have "resolve_tickers_from_text rt text_pris_tesla 3 = Inr [''PRIS'', ''TESLA'', ''IDAG'']"
    using resolve_by_iteration [OF ok f] by simp
  with f m show ?thesis by simp
qed

theorem resolve_pris_tesla_drops_TSLA_witness:
  "set_iter rt_insertion_order = (\<lambda>xs. xs)
   \<and> resolve_tickers_from_text rt_insertion_order text_pris_tesla 3 =
       Inr [''PRIS'', ''TESLA'', ''IDAG'']"
proof -
  have i: "set_iter rt_insertion_order = (\<lambda>xs. xs)" by (simp add: rt_insertion_order_def)
  from resolve_pris_tesla_drops_TSLA [OF i] show ?thesis using i by blast
qed

text \<open>
  C3. In the text \<open>"vad kostar H&M och Ericsson"\<close> the ampersand is no word character, so
  the normalized text has the two tokens \<open>h\<close> and \<open>m\<close> and neither alias \<open>h&m\<close> nor
  \<open>hm\<close> is a token of it. Unless the scorer gives one of these two aliases 80 or more
  against the whole normalized text, \<open>HM-B.ST\<close> is not returned, for any limit and
  any order of iteration.
\<close>

theorem resolve_hm_ericsson_misses_HM:
  assumes "set_iter_ok rt"
    and "WRatio rt ''vad kostar h m och ericsson'' ''h&m'' < 80"
    and "WRatio rt ''vad kostar h m och ericsson'' ''hm'' < 80"
  shows "\<exists>r. resolve_tickers_from_text rt text_hm_ericsson limit = Inr r \<and> ''HM-B.ST'' \<notin> set r"
proof -
  let ?q = "normalize_company_text text_hm_ericsson"
  obtain found where f: "found_after_steps rt text_hm_ericsson limit = Inr found"
    using found_after_steps_total by blast
  have "''HM-B.ST'' \<notin> set found"
  proof
    assume "''HM-B.ST'' \<in> set found"
    then consider
      (token) "''HM-B.ST'' \<in> {maybe_append_st (upper t) | t.
          t \<in> set (split_ws ?q) \<and> ticker_fullmatch (upper t)}"
      | (fuzzy) "\<exists>m\<in>set (process_extract (WRatio rt) ?q alias_keys limit 80).
          alias_lookup (fst m) = Some ''HM-B.ST''"
      | (exact) "\<exists>w\<in>set (split_ws ?q). alias_lookup w = Some ''HM-B.ST''"
      unfolding found_after_steps_parts(1) [OF f] by blast
    then show False
    proof cases
      case token
      then have "''HM-B.ST'' \<in> set (add_ticker_tokens (split_ws ?q) [])"
        by (simp only: add_ticker_tokens_set) simp
      then show False by (simp add: hm_tokens(3))
    next
      case fuzzy
      then obtain a s i where m: "(a, s, i) \<in> set (process_extract (WRatio rt) ?q alias_keys limit 80)"
        and a: "alias_lookup a = Some ''HM-B.ST''"
        by auto
      from process_extract_match [OF m] have "80 \<le> WRatio rt ?q a" by simp
      moreover from hm_aliases [OF a] have "WRatio rt ?q a < 80"
        using assms(2,3) by (auto simp add: hm_tokens(1))
      ultimately show False by simp
    next
      case exact
      then obtain w where "w \<in> set (split_ws ?q)" and "alias_lookup w = Some ''HM-B.ST''"
        by blast
      then show False using hm_aliases [of w] by (auto simp add: hm_tokens(2))
    qed
  qed
  moreover have "set (slice_to limit (set_iter rt found)) \<subseteq> set found"
  proof -
    from found_after_steps_inv [OF f] have "distinct found" by blast
    with assms(1) have "set (set_iter rt found) = set found" by (simp add: set_iter_ok_def)
    then show ?thesis using set_slice_to [of limit "set_iter rt found"] by simp
  qed
  ultimately have "''HM-B.ST'' \<notin> set (slice_to limit (set_iter rt found))" by blast
  then show ?thesis using resolve_by_iteration [OF assms(1) f] by simp
qed

theorem resolve_hm_ericsson_misses_HM_witness:
  "set_iter_ok rt_insertion_order
   \<and> WRatio rt_insertion_order ''vad kostar h m och ericsson'' ''h&m'' < 80
   \<and> WRatio rt_insertion_order ''vad kostar h m och ericsson'' ''hm'' < 80
   \<and> resolve_tickers_from_text rt_insertion_order text_hm_ericsson 3 = Inr [''VAD'', ''H'', ''M'']
   \<and> ''HM-B.ST'' \<notin> set [''VAD'', ''H'', ''M'']"
proof -
  have a: "WRatio rt_insertion_order ''vad kostar h m och ericsson'' ''h&m'' < 80"
    and b: "WRatio rt_insertion_order ''vad kostar h m och ericsson'' ''hm'' < 80"
    using hm_scores by (simp_all add: rt_insertion_order_def)
  from resolve_hm_ericsson_misses_HM [OF set_iter_ok_insertion a b, of 3]
  show ?thesis using set_iter_ok_insertion a b resolve_hm_ericsson_insertion by simp
qed

text \<open>
  C4. For the text \<open>"ERIC-B"\<close> and the limit 3 the function returns exactly
  \<open>["ERIC-B.ST"]\<close>, provided every alias that the scorer rates 80 or more against
  \<open>"eric-b"\<close> is an alias of \<open>ERIC-B.ST\<close>.
\<close>

theorem resolve_bare_eric_b:
  assumes "set_iter_ok rt"
    and "\<forall>a\<in>set alias_keys. 80 \<le> WRatio rt ''eric-b'' a \<longrightarrow> alias_lookup a = Some ''ERIC-B.ST''"
  shows "resolve_tickers_from_text rt ''ERIC-B'' 3 = Inr [''ERIC-B.ST'']"
proof -
  let ?q = "normalize_company_text ''ERIC-B''"
  obtain found where f: "found_after_steps rt ''ERIC-B'' 3 = Inr found"
    using found_after_steps_total by blast
  have tok: "{maybe_append_st (upper t) | t.
      t \<in> set (split_ws ?q) \<and> ticker_fullmatch (upper t)} = {''ERIC-B.ST''}"
    using add_ticker_tokens_set [of "split_ws ?q" "[]"] by (simp add: eric_b_tokens(3))
  have fz: "{v. \<exists>m\<in>set (process_extract (WRatio rt) ?q alias_keys 3 80).
      alias_lookup (fst m) = Some v} \<subseteq> {''ERIC-B.ST''}"
  proof
    fix v
    assume "v \<in> {v. \<exists>m\<in>set (process_extract (WRatio rt) ?q alias_keys 3 80).
      alias_lookup (fst m) = Some v}"
    then obtain a s i where m: "(a, s, i) \<in> set (process_extract (WRatio rt) ?q alias_keys 3 80)"
      and a: "alias_lookup a = Some v"
      by auto
    from process_extract_match [OF m] have "a \<in> set alias_keys" and "80 \<le> WRatio rt ''eric-b'' a"
      by (simp_all add: eric_b_tokens(1))
    with assms(2) have "alias_lookup a = Some ''ERIC-B.ST''" by blast
    with a show "v \<in> {''ERIC-B.ST''}" by simp
  qed
  have ex: "{v. \<exists>w\<in>set (split_ws ?q). alias_lookup w = Some v} = {''ERIC-B.ST''}"
    by (simp add: eric_b_tokens(2,4))
  have "set found = {''ERIC-B.ST''}"
    unfolding found_after_steps_parts(1) [OF f] tok ex using fz by blast
  moreover from found_after_steps_inv [OF f] have "distinct found" by blast
  ultimately have found: "found = [''ERIC-B.ST'']" by (simp add: singleton_list)
  from assms(1) have "distinct (set_iter rt [''ERIC-B.ST''])"
    and "set (set_iter rt [''ERIC-B.ST'']) = {''ERIC-B.ST''}"
    by (simp_all add: set_iter_ok_def)
  then have "set_iter rt [''ERIC-B.ST''] = [''ERIC-B.ST'']" by (rule singleton_list)
  then show ?thesis
    using resolve_by_iteration [OF assms(1) f] by (simp add: found slice_to_def)
qed

theorem resolve_bare_eric_b_witness:
  "set_iter_ok rt_reverse_order
   \<and> list_all (\<lambda>a. 80 \<le> WRatio rt_reverse_order ''eric-b'' a
                    \<longrightarrow> alias_lookup a = Some ''ERIC-B.ST'') alias_keys
   \<and> resolve_tickers_from_text rt_reverse_order ''ERIC-B'' 3 = Inr [''ERIC-B.ST'']"
proof -
  have s: "list_all (\<lambda>a. 80 \<le> WRatio rt_reverse_order ''eric-b'' a
                    \<longrightarrow> alias_lookup a = Some ''ERIC-B.ST'') alias_keys"
    using eric_b_scores by (simp add: rt_reverse_order_def)
  then have "\<forall>a\<in>set alias_keys. 80 \<le> WRatio rt_reverse_order ''eric-b'' a
      \<longrightarrow> alias_lookup a = Some ''ERIC-B.ST''"
    by (simp add: list_all_iff)
  from resolve_bare_eric_b [OF set_iter_ok_reverse this]
  show ?thesis using set_iter_ok_reverse s by blast
qed

subsection \<open>Tokens of ASCII letters\<close>

lemma lower_char_space: "is_space c \<Longrightarrow> lower_char c = c"
  by (auto simp add: is_space_def lower_char_def Let_def)

lemma lower_char_letter:
  assumes "is_ascii_letter c"
  shows "is_word_char (lower_char c)" and "upper_char (lower_char c) = upper_char c"
    and "\<exists>d. upper_char c = [d] \<and> is_AZ d"
proof -
  let ?n = "code_point c"
  from assms consider (up) "65 \<le> ?n \<and> ?n \<le> 90" | (low) "97 \<le> ?n \<and> ?n \<le> 122"
    by (auto simp add: is_ascii_letter_def)
  then have "is_word_char (lower_char c) \<and> upper_char (lower_char c) = upper_char c
      \<and> (\<exists>d. upper_char c = [d] \<and> is_AZ d)"
  proof cases
    case up
    then have l: "lower_char c = char_of (?n + 32)" by (simp add: lower_char_def Let_def)
    have cp: "code_point (char_of (?n + 32)) = ?n + 32"
      using up by (intro code_point_char_of) linarith
    have u: "upper_char c = [c]" using up by (intro upper_char_fixed) auto
    have "upper_char (char_of (?n + 32)) = [char_of ?n]"
      using up by (simp add: upper_char_def Let_def cp)
    also have "char_of ?n = c" by (simp add: code_point_def)
    finally have "upper_char (lower_char c) = upper_char c" by (simp add: l u)
    moreover have "is_word_char (lower_char c)"
      using up by (simp add: l is_word_char_def Let_def cp)
    moreover have "is_AZ c" using up by (simp add: is_AZ_def)
    ultimately show ?thesis using u by simp
  next
    case low
    then have l: "lower_char c = c" by (simp add: lower_char_def Let_def)
    have cp: "code_point (char_of (?n - 32)) = ?n - 32"
      using low by (intro code_point_char_of) linarith
    have u: "upper_char c = [char_of (?n - 32)]" using low by (simp add: upper_char_def Let_def)
    have "is_AZ (char_of (?n - 32))" using low unfolding is_AZ_def cp by linarith
    moreover have "is_word_char c" using low by (simp add: is_word_char_def Let_def)
    ultimately show ?thesis using u by (simp add: l)
  qed
  then show "is_word_char (lower_char c)" and "upper_char (lower_char c) = upper_char c"
    and "\<exists>d. upper_char c = [d] \<and> is_AZ d"
    by blast+
qed

lemma upper_letters:
  assumes "\<forall>c\<in>set w. is_ascii_letter c"
  shows "upper (lower w) = upper w \<and> length (upper w) = length w \<and> list_all is_AZ (upper w)"
  using assms
proof (induction w)
  case Nil
  show ?case by (simp add: upper_def lower_def)
next
  case (Cons c w)
  then have c: "is_ascii_letter c" by simp
  from lower_char_letter(3) [OF c] obtain d where d: "upper_char c = [d]" "is_AZ d" by blast
  have "upper (lower (c # w)) = upper_char (lower_char c) @ upper (lower w)"
    by (simp add: upper_def lower_def)
  moreover have "upper (c # w) = upper_char c @ upper w" by (simp add: upper_def)
  ultimately show ?case
    using Cons lower_char_letter(2) [OF c] d by simp
qed

lemma ticker_fullmatch_letters:
  assumes "list_all is_AZ u" and "1 \<le> length u" and "length u \<le> 5"
  shows "ticker_fullmatch u"
proof -
  from assms(1) have t: "takeWhile is_AZ u = u" and d: "dropWhile is_AZ u = []"
    by (simp_all add: list_all_iff)
  show ?thesis using assms(2,3) by (simp add: ticker_fullmatch_def Let_def t d)
qed

text \<open>
  A whitespace-delimited token of the text that consists of ASCII letters is, in lower
  case, a token of the normalized text.
\<close>

lemma letter_token_normalized:
  assumes "w \<in> set (split_ws text)" and "\<forall>c\<in>set w. is_ascii_letter c"
  shows "lower w \<in> set (split_ws (normalize_company_text text))"
proof -
  from findall_class_words [OF assms(1) [unfolded split_ws_def]] have wne: "w \<noteq> []" by simp
  from findall_class_bounded [OF assms(1) [unfolded split_ws_def]] obtain pre post
    where t: "text = pre @ w @ post"
      and l: "pre = [] \<or> is_space (last pre)" and r: "post = [] \<or> is_space (hd post)"
    by auto
  have a: "lower w \<noteq> []" using wne by (simp add: lower_def)
  have b: "\<forall>c\<in>set (lower w). is_word_char c"
    using assms(2) lower_char_letter(1) by (auto simp add: lower_def)
  have c: "lower post = [] \<or> \<not> is_word_char (hd (lower post))"
  proof (cases post)
    case Nil
    then show ?thesis by (simp add: lower_def)
  next
    case (Cons x xs)
    with r have "is_space x" by simp
    then have "\<not> is_word_char (lower_char x)"
      using word_char_not_space by (auto simp add: lower_char_space)
    then show ?thesis by (simp add: Cons lower_def)
  qed
  have d: "lower pre = [] \<or> \<not> is_word_char (last (lower pre))"
  proof (cases "pre = []")
    case True
    then show ?thesis by (simp add: lower_def)
  next
    case False
    with l have "is_space (last pre)" by simp
    then have "\<not> is_word_char (lower_char (last pre))"
      using word_char_not_space by (auto simp add: lower_char_space)
    then show ?thesis using False by (simp add: lower_def last_map)
  qed
  have "lower w \<in> set (findall_class is_word_char (lower pre @ lower w @ lower post))"
    using a b c d by (rule findall_class_member)
  moreover have "lower text = lower pre @ lower w @ lower post" by (simp add: t lower_def)
  ultimately show ?thesis by (simp add: split_normalized)
qed

lemma letter_token_found:
  assumes "w \<in> set (split_ws text)" and "\<forall>c\<in>set w. is_ascii_letter c" and "length w \<le> 5"
    and "found_after_steps rt text limit = Inr found"
  shows "maybe_append_st (upper w) \<in> set found"
proof -
  from findall_class_words [OF assms(1) [unfolded split_ws_def]] have "w \<noteq> []" by simp
  then have len: "1 \<le> length w" by (cases w) simp_all
  from upper_letters [OF assms(2)] have ul: "upper (lower w) = upper w"
    and "length (upper w) = length w" and "list_all is_AZ (upper w)"
    by simp_all
  then have "ticker_fullmatch (upper w)"
    using len assms(3) by (intro ticker_fullmatch_letters) simp_all
  then have "ticker_fullmatch (upper (lower w))" by (simp only: ul)
  with letter_token_normalized [OF assms(1,2)]
  have "maybe_append_st (upper (lower w)) \<in>
      {maybe_append_st (upper t) | t.
         t \<in> set (split_ws (normalize_company_text text)) \<and> ticker_fullmatch (upper t)}"
    by blast
  then have "maybe_append_st (upper (lower w)) \<in> set found"
    unfolding found_after_steps_parts(1) [OF assms(4)] by blast
  then show ?thesis by (simp only: ul)
qed

lemma found_kolla_aapl:
  "found_after_steps rt_insertion_order ''kolla AAPL'' 3 = Inr [''KOLLA'', ''AAPL'']"
  "split_ws ''kolla AAPL'' = [''kolla'', ''AAPL'']"
  "upper ''AAPL'' = ''AAPL''"
  "maybe_append_st ''AAPL'' = ''AAPL''"
  "resolve_tickers_from_text rt_insertion_order ''kolla AAPL'' 3 = Inr [''KOLLA'', ''AAPL'']"
  by code_simp+

lemma aapl_letters: "\<forall>c\<in>set ''AAPL''. is_ascii_letter c"
  by (simp add: is_ascii_letter_def code_point_def)

lemma resolve_evo:
  "split_ws ''EVO'' = [''EVO'']"
  "resolve_tickers_from_text rt_insertion_order ''EVO'' 3 = Inr [''EVO.ST'']"
  "split_ws ''AAPL MSFT NVDA TSLA'' = [''AAPL'', ''MSFT'', ''NVDA'', ''TSLA'']"
  by code_simp+

subsection \<open>Ticker tokens\<close>

text \<open>
  C5, as far as it holds. For a whitespace-delimited token of 1 to 5 ASCII letters, the
  upper-cased token as \<open>_maybe_append_st\<close> leaves it (with \<open>.ST\<close> when it is one of
  the nine Stockholm symbols, unchanged otherwise) is a candidate; it is in the returned
  list when the candidates are at most \<open>limit\<close>.
\<close>

theorem resolve_includes_ticker_token:
  assumes "set_iter_ok rt"
    and "w \<in> set (split_ws text)" and "\<forall>c\<in>set w. is_ascii_letter c" and "length w \<le> 5"
    and "found_after_steps rt text limit = Inr found"
  shows "maybe_append_st (upper w) \<in> set found
         \<and> (upper w \<notin> set STOCKHOLM_SUFFIX_CANDIDATES \<longrightarrow> maybe_append_st (upper w) = upper w)
         \<and> (int (length found) \<le> limit \<longrightarrow>
              (\<exists>r. resolve_tickers_from_text rt text limit = Inr r
                 \<and> maybe_append_st (upper w) \<in> set r))"
proof -
  have m: "maybe_append_st (upper w) \<in> set found"
    using assms(2-5) by (rule letter_token_found)
  have "maybe_append_st (upper w) = upper w" if "upper w \<notin> set STOCKHOLM_SUFFIX_CANDIDATES"
    using that by (simp add: maybe_append_st_def upper_idem)
  moreover have "\<exists>r. resolve_tickers_from_text rt text limit = Inr r
      \<and> maybe_append_st (upper w) \<in> set r" if le: "int (length found) \<le> limit"
  proof -
    from found_after_steps_inv [OF assms(5)] have d: "distinct found" by blast
    with assms(1) have s: "set (set_iter rt found) = set found" by (simp add: set_iter_ok_def)
    have "length (set_iter rt found) = length found"
      using assms(1) d by (rule set_iter_length)
    with le have "slice_to limit (set_iter rt found) = set_iter rt found"
      by (simp add: slice_to_def)
    then have "resolve_tickers_from_text rt text limit = Inr (set_iter rt found)"
      using resolve_by_iteration [OF assms(1,5)] by simp
    with m s show ?thesis by simp
  qed
  ultimately show ?thesis using m by blast
qed

theorem resolve_includes_ticker_token_witness:
  "set_iter_ok rt_insertion_order
   \<and> ''AAPL'' \<in> set (split_ws ''kolla AAPL'')
   \<and> list_all is_ascii_letter ''AAPL'' \<and> length ''AAPL'' \<le> 5
   \<and> found_after_steps rt_insertion_order ''kolla AAPL'' 3 = Inr [''KOLLA'', ''AAPL'']
   \<and> resolve_tickers_from_text rt_insertion_order ''kolla AAPL'' 3 = Inr [''KOLLA'', ''AAPL'']
   \<and> maybe_append_st (upper ''AAPL'') = ''AAPL''
   \<and> maybe_append_st (upper ''AAPL'') \<in> set [''KOLLA'', ''AAPL'']"
proof -
  have a: "''AAPL'' \<in> set (split_ws ''kolla AAPL'')" by (simp add: found_kolla_aapl(2))
  have b: "length ''AAPL'' \<le> 5" by simp
  from resolve_includes_ticker_token
    [OF set_iter_ok_insertion a aapl_letters b found_kolla_aapl(1)]
  have "maybe_append_st (upper ''AAPL'') \<in> set [''KOLLA'', ''AAPL'']" by blast
  then show ?thesis
    using set_iter_ok_insertion a b aapl_letters found_kolla_aapl
    by (simp add: list_all_iff)
qed

text \<open>
  The claim as stated fails in two ways. The token \<open>EVO\<close> is returned as \<open>EVO.ST\<close>,
  not as the token itself; and of four ticker tokens only three are returned with the
  limit 3.
\<close>

theorem resolve_ticker_token_counterexample:
  "''EVO'' \<in> set (split_ws ''EVO'')
   \<and> resolve_tickers_from_text rt_insertion_order ''EVO'' 3 = Inr [''EVO.ST'']
   \<and> ''EVO'' \<notin> set [''EVO.ST'']
   \<and> ''TSLA'' \<in> set (split_ws ''AAPL MSFT NVDA TSLA'')
   \<and> resolve_tickers_from_text rt_insertion_order ''AAPL MSFT NVDA TSLA'' 3 =
       Inr [''AAPL'', ''MSFT'', ''NVDA'']
   \<and> ''TSLA'' \<notin> set [''AAPL'', ''MSFT'', ''NVDA'']"
  by (simp add: resolve_evo resolve_four_tickers_insertion)

end
